theory Spec2Isabelle
  imports Complex_Main "HOL-Library.Product_Lexorder"
begin

section \<open>Data model\<close>

text \<open>
  A coordinate is a Python tuple \<open>(row, col)\<close> of unbounded integers.  A grid is a list of
  rows; a cell equal to \<open>1\<close> is an obstacle, every other value is free.  The visited set is a
  Python \<open>set\<close> of coordinates.
\<close>

type_synonym coord = "int \<times> int"
type_synonym grid = "int list list"

text \<open>The exceptions the search can raise: a list index out of range, and \<open>set.remove\<close> of
  an absent element.\<close>

datatype error = IndexError | KeyError

text \<open>
  A number as the search handles it: the value of \<open>g_cost + heuristic(node, goal)\<close>, or
  \<open>math.inf\<close>.  An integer-valued heuristic (such as \<open>manhattan\<close>) is represented exactly
  by its embedding into the reals; a float-valued one is idealised by real arithmetic.
\<close>

datatype number = Fin real | Infinity

text \<open>What \<open>dfs_search\<close> returns: the string \<open>"FOUND"\<close> or a number.\<close>

datatype result = FOUND | Exceed number

text \<open>Python's \<open>a > b\<close> and \<open>min(a, b)\<close> on numbers that may be \<open>math.inf\<close>.\<close>

fun number_less :: "number \<Rightarrow> number \<Rightarrow> bool" where
  "number_less (Fin a) (Fin b) = (a < b)"
| "number_less (Fin a) Infinity = True"
| "number_less Infinity b = False"

definition number_min :: "number \<Rightarrow> number \<Rightarrow> number" where
  "number_min a b = (if number_less b a then b else a)"

text \<open>Python list indexing \<open>xs[i]\<close>: negative indices count from the end, anything else
  out of range raises \<open>IndexError\<close>.\<close>

definition py_index :: "'a list \<Rightarrow> int \<Rightarrow> error + 'a" where
  "py_index xs i =
     (if 0 \<le> i \<and> i < int (length xs) then Inr (xs ! nat i)
      else if - int (length xs) \<le> i \<and> i < 0 then Inr (xs ! nat (int (length xs) + i))
      else Inl IndexError)"

text \<open>\<open>grid[r][c]\<close>.\<close>

definition cell :: "grid \<Rightarrow> coord \<Rightarrow> error + int" where
  "cell grid p =
     (case py_index grid (fst p) of
        Inl e \<Rightarrow> Inl e
      | Inr row \<Rightarrow> py_index row (snd p))"

text \<open>
  The boundary test \<open>0 <= neighbor[0] < len(grid) and 0 <= neighbor[1] < len(grid[0])\<close>.
  The conjunction is evaluated left to right, so \<open>grid[0]\<close> is only read when the grid has a
  row.
\<close>

definition in_bounds :: "grid \<Rightarrow> coord \<Rightarrow> bool" where
  "in_bounds grid p =
     (0 \<le> fst p \<and> fst p < int (length grid) \<and>
      (case grid of [] \<Rightarrow> False | row0 # _ \<Rightarrow> 0 \<le> snd p \<and> snd p < int (length row0)))"

section \<open>The heuristic\<close>

definition manhattan :: "coord \<Rightarrow> coord \<Rightarrow> int" where
  "manhattan a b = \<bar>fst a - fst b\<bar> + \<bar>snd a - snd b\<bar>"

text \<open>The default heuristic as \<open>ida_star\<close> receives it: a function into the numbers.\<close>

definition manhattan_h :: "coord \<Rightarrow> coord \<Rightarrow> real" where
  "manhattan_h a b = of_int (manhattan a b)"

section \<open>The bounded depth-first search\<close>

text \<open>The neighbour order of the source: right, down, left, up.\<close>

definition directions :: "(int \<times> int) list" where
  "directions = [(0, 1), (1, 0), (0, -1), (-1, 0)]"

definition neighbor_of :: "coord \<Rightarrow> int \<times> int \<Rightarrow> coord" where
  "neighbor_of node d = (fst node + fst d, snd node + snd d)"

text \<open>
  \<open>dfs_search\<close> is a closure over \<open>heuristic\<close>, \<open>goal\<close> and \<open>grid\<close>; they are the first three
  arguments here.  The visited set is mutated in place by the source, so it is threaded
  through and returned.  \<open>dfs_loop\<close> is the \<open>for\<close> loop over the remaining directions, with
  the running \<open>min_exceed\<close>.  The interpreter's recursion limit is not part of the model.
\<close>

function dfs_search ::
    "(coord \<Rightarrow> coord \<Rightarrow> real) \<Rightarrow> coord \<Rightarrow> grid \<Rightarrow> coord \<Rightarrow> int \<Rightarrow> real \<Rightarrow> coord set
      \<Rightarrow> error + (result \<times> coord set)"
  and dfs_loop ::
    "(coord \<Rightarrow> coord \<Rightarrow> real) \<Rightarrow> coord \<Rightarrow> grid \<Rightarrow> coord \<Rightarrow> int \<Rightarrow> real \<Rightarrow> (int \<times> int) list
      \<Rightarrow> number \<Rightarrow> coord set \<Rightarrow> error + (result \<times> coord set)"
where
  "dfs_search heuristic goal grid node g_cost current_threshold visited =
     (if of_int g_cost + heuristic node goal > current_threshold
        then Inr (Exceed (Fin (of_int g_cost + heuristic node goal)), visited)
      else if node = goal then Inr (FOUND, visited)
      else dfs_loop heuristic goal grid node g_cost current_threshold directions Infinity visited)"
| "dfs_loop heuristic goal grid node g_cost current_threshold [] min_exceed visited =
     Inr (Exceed min_exceed, visited)"
| "dfs_loop heuristic goal grid node g_cost current_threshold (d # rest) min_exceed visited =
     (if \<not> in_bounds grid (neighbor_of node d)
        then dfs_loop heuristic goal grid node g_cost current_threshold rest min_exceed visited
      else (case cell grid (neighbor_of node d) of
        Inl e \<Rightarrow> Inl e
      | Inr v \<Rightarrow>
          (if v = 1
            then dfs_loop heuristic goal grid node g_cost current_threshold rest min_exceed visited
          else if neighbor_of node d \<in> visited
            then dfs_loop heuristic goal grid node g_cost current_threshold rest min_exceed visited
          else (case dfs_search heuristic goal grid (neighbor_of node d) (g_cost + 1)
                      current_threshold (insert (neighbor_of node d) visited) of
            Inl e \<Rightarrow> Inl e
          | Inr (FOUND, visited') \<Rightarrow> Inr (FOUND, visited')
          | Inr (Exceed r, visited') \<Rightarrow>
              (if neighbor_of node d \<in> visited'
                then dfs_loop heuristic goal grid node g_cost current_threshold rest
                       (number_min min_exceed r) (visited' - {neighbor_of node d})
              else Inl KeyError)))))"
  by pat_completeness auto

text \<open>
  The search terminates: a call that is not pruned has \<open>g_cost + heuristic(node, goal)\<close> at
  most the threshold, every recursive call is into an in-bounds cell with \<open>g_cost + 1\<close>, and
  the heuristic is bounded below on the finitely many in-bounds cells.
\<close>

definition cells :: "grid \<Rightarrow> coord set" where
  "cells grid = {p. in_bounds grid p}"

definition h_min :: "(coord \<Rightarrow> coord \<Rightarrow> real) \<Rightarrow> coord \<Rightarrow> grid \<Rightarrow> real" where
  "h_min heuristic goal grid = Min ((\<lambda>c. heuristic c goal) ` cells grid)"

lemma finite_cells: "finite (cells grid)"
proof (cases grid)
  case Nil
  then show ?thesis by (simp add: cells_def in_bounds_def)
next
  case (Cons row0 rest)
  have "cells grid \<subseteq> {0 ..< int (length grid)} \<times> {0 ..< int (length row0)}"
    using Cons by (auto simp: cells_def in_bounds_def)
  then show ?thesis by (rule finite_subset) simp
qed

lemma h_min_le: "in_bounds grid c \<Longrightarrow> h_min heuristic goal grid \<le> heuristic c goal"
  unfolding h_min_def by (rule Min_le) (auto simp: finite_cells cells_def [symmetric], simp add: cells_def)

lemma descent_measure:
  fixes thr :: real and g :: int
  assumes "m \<le> hc" and "\<not> thr < of_int (g + 1) + hc"
  shows "Suc (nat \<lfloor>thr - of_int (g + 1) - m\<rfloor>) = nat \<lfloor>thr - of_int g - m\<rfloor>"
proof -
  have "0 \<le> thr - of_int (g + 1) - m" using assms by linarith
  then have nonneg: "0 \<le> \<lfloor>thr - of_int (g + 1) - m\<rfloor>" by simp
  have "thr - of_int g - m = (thr - of_int (g + 1) - m) + 1" by simp
  then have "\<lfloor>thr - of_int g - m\<rfloor> = \<lfloor>thr - of_int (g + 1) - m\<rfloor> + 1"
    by (metis floor_add_int of_int_1)
  with nonneg show ?thesis by linarith
qed

termination dfs_search
proof (relation "inv_image (less_than <*lex*> less_than)
     (\<lambda>x. case x of
        Inl (heuristic, goal, grid, node, g_cost, thr, visited) \<Rightarrow>
          (if of_int g_cost + heuristic node goal > thr then 0
           else 1 + nat \<lfloor>thr - of_int g_cost - h_min heuristic goal grid\<rfloor>, 0::nat)
      | Inr (heuristic, goal, grid, node, g_cost, thr, ds, m, visited) \<Rightarrow>
          (nat \<lfloor>thr - of_int g_cost - h_min heuristic goal grid\<rfloor>, length ds + 1))", goal_cases)
  case 1
  show ?case by (intro wf_inv_image wf_lex_prod wf_less_than)
next
  case (6 heuristic goal grid node g_cost current_threshold d rest min_exceed visited b)
  then show ?case
    using descent_measure [OF h_min_le [of grid "neighbor_of node d" heuristic goal]]
    by (auto simp del: of_int_add)
qed simp_all

declare dfs_search.simps [simp del]

section \<open>The threshold loop\<close>

text \<open>
  The \<open>while True\<close> loop of \<open>ida_star\<close>.  \<open>None\<close> stands for a loop that never returns; an
  exception raised by the search leaves the loop and is the result \<open>Inl\<close>.
\<close>

partial_function (option) ida_loop ::
    "(coord \<Rightarrow> coord \<Rightarrow> real) \<Rightarrow> coord \<Rightarrow> coord \<Rightarrow> grid \<Rightarrow> real \<Rightarrow> (error + bool) option"
where
  "ida_loop heuristic start goal grid threshold =
     (case dfs_search heuristic goal grid start 0 threshold {start} of
        Inl e \<Rightarrow> Some (Inl e)
      | Inr (FOUND, visited) \<Rightarrow> Some (Inr True)
      | Inr (Exceed Infinity, visited) \<Rightarrow> Some (Inr False)
      | Inr (Exceed (Fin result), visited) \<Rightarrow> ida_loop heuristic start goal grid result)"

definition ida_star ::
    "coord \<Rightarrow> coord \<Rightarrow> grid \<Rightarrow> (coord \<Rightarrow> coord \<Rightarrow> real) \<Rightarrow> (error + bool) option" where
  "ida_star start goal grid heuristic = ida_loop heuristic start goal grid (heuristic start goal)"

declare dfs_loop.simps [simp del]

section \<open>Paths on the grid\<close>

text \<open>A cell the search may step onto: inside the grid and not an obstacle.\<close>

definition passable :: "grid \<Rightarrow> coord \<Rightarrow> bool" where
  "passable grid p = (in_bounds grid p \<and> (case cell grid p of Inl e \<Rightarrow> False | Inr v \<Rightarrow> v \<noteq> 1))"

text \<open>Two cells are adjacent when one is a 4-neighbour of the other.\<close>

definition adjacent :: "coord \<Rightarrow> coord \<Rightarrow> bool" where
  "adjacent a b = (b \<in> set (map (neighbor_of a) directions))"

text \<open>A 4-directional path is a non-empty list of cells, each adjacent to the next; its cost
  is the number of steps, \<open>length p - 1\<close>.\<close>

fun is_path :: "coord list \<Rightarrow> bool" where
  "is_path [] = False"
| "is_path [a] = True"
| "is_path (a # b # rest) = (adjacent a b \<and> is_path (b # rest))"

text \<open>An obstacle-free path of the grid, and the existence of one between two cells.\<close>

definition grid_path :: "grid \<Rightarrow> coord list \<Rightarrow> bool" where
  "grid_path grid p = (is_path p \<and> list_all (passable grid) p)"

definition path_exists :: "grid \<Rightarrow> coord \<Rightarrow> coord \<Rightarrow> bool" where
  "path_exists grid s g = (\<exists>p. grid_path grid p \<and> hd p = s \<and> last p = g)"

text \<open>The true cost between two cells joined by a free path: the least number of steps of a free path.\<close>

definition shortest_cost :: "grid \<Rightarrow> coord \<Rightarrow> coord \<Rightarrow> nat" where
  "shortest_cost grid s g = (LEAST n. \<exists>p. grid_path grid p \<and> hd p = s \<and> last p = g \<and> length p = Suc n)"

text \<open>A rectangular grid: every row is as long as the first one.\<close>

definition rectangular :: "grid \<Rightarrow> bool" where
  "rectangular grid =
     (case grid of [] \<Rightarrow> True | row0 # rest \<Rightarrow> list_all (\<lambda>row. length row = length row0) rest)"

text \<open>
  What the search can explore: \<open>reach grid a b\<close> holds when \<open>b\<close> is \<open>a\<close> or can be reached from
  \<open>a\<close> by steps onto passable cells.  The cell \<open>a\<close> itself is not examined.
\<close>

inductive reach :: "grid \<Rightarrow> coord \<Rightarrow> coord \<Rightarrow> bool" for grid where
  reach_refl: "reach grid a a"
| reach_step: "adjacent a n \<Longrightarrow> passable grid n \<Longrightarrow> reach grid n b \<Longrightarrow> reach grid a b"

text \<open>A path that never steps onto a cell of \<open>V\<close> nor onto a cell it has already left.\<close>

inductive spath :: "grid \<Rightarrow> coord set \<Rightarrow> coord \<Rightarrow> coord \<Rightarrow> bool" for grid where
  spath_refl: "spath grid V a a"
| spath_step: "adjacent a n \<Longrightarrow> passable grid n \<Longrightarrow> n \<notin> V \<Longrightarrow> spath grid (insert n V) n b
    \<Longrightarrow> spath grid V a b"

text \<open>The cells stepped onto after \<open>a\<close>, as a list.\<close>

fun walk :: "grid \<Rightarrow> coord \<Rightarrow> coord list \<Rightarrow> bool" where
  "walk grid a [] = True"
| "walk grid a (n # q) = (adjacent a n \<and> passable grid n \<and> walk grid n q)"

text \<open>The f-costs a call of \<open>dfs_search\<close> can return: finitely many.\<close>

definition f_candidates :: "(coord \<Rightarrow> coord \<Rightarrow> real) \<Rightarrow> coord \<Rightarrow> grid \<Rightarrow> coord \<Rightarrow> int \<Rightarrow> coord set \<Rightarrow> real set" where
  "f_candidates h goal grid node g V =
     (\<lambda>(k, c). of_int (g + int k) + h c goal) ` ({0 .. card (cells grid - V)} \<times> insert node (cells grid - V))"

text \<open>Two grids of the same shape that agree on every cell other than \<open>s\<close>.\<close>

definition same_except :: "coord \<Rightarrow> grid \<Rightarrow> grid \<Rightarrow> bool" where
  "same_except s G G' =
     (length G = length G' \<and>
      (\<forall>i < length G. length (G ! i) = length (G' ! i) \<and>
         (\<forall>j < length (G ! i). (int i, int j) \<noteq> s \<longrightarrow> G ! i ! j = G' ! i ! j)))"

text \<open>A node with zero eligible neighbours: every 4-neighbour is out of bounds, blocked, or
  already in the visited set.\<close>

definition dead_end :: "grid \<Rightarrow> coord \<Rightarrow> coord set \<Rightarrow> bool" where
  "dead_end grid node visited =
     list_all (\<lambda>d. \<not> in_bounds grid (neighbor_of node d)
                  \<or> cell grid (neighbor_of node d) = Inr 1
                  \<or> neighbor_of node d \<in> visited) directions"

text \<open>The thresholds of the outer iterations of \<open>ida_star\<close>: the first is
  \<open>heuristic(start, goal)\<close>, the next one the finite value the top-level search returned.\<close>

inductive iteration :: "(coord \<Rightarrow> coord \<Rightarrow> real) \<Rightarrow> coord \<Rightarrow> coord \<Rightarrow> grid \<Rightarrow> real \<Rightarrow> bool"
  for heuristic start goal grid where
  first: "iteration heuristic start goal grid (heuristic start goal)"
| again: "iteration heuristic start goal grid threshold \<Longrightarrow>
    dfs_search heuristic goal grid start 0 threshold {start} = Inr (Exceed (Fin result), visited) \<Longrightarrow>
    iteration heuristic start goal grid result"

text \<open>
  The recursive calls of one run.  A call \<open>dfs_search(node, g_cost, t, visited)\<close> that is neither
  pruned nor at the goal runs its loop; when the directions \<open>before\<close> have been processed
  without \<open>FOUND\<close> or an exception, leaving the visited set \<open>visited1\<close>, and the next
  neighbour passes the three tests, that neighbour is added to the set and \<open>dfs_search\<close> is
  called on it with \<open>g_cost + 1\<close>.
\<close>

inductive subcall ::
  "(coord \<Rightarrow> coord \<Rightarrow> real) \<Rightarrow> coord \<Rightarrow> grid \<Rightarrow> real \<Rightarrow> coord \<times> int \<times> coord set
     \<Rightarrow> coord \<times> int \<times> coord set \<Rightarrow> bool"
  for heuristic goal grid current_threshold where
  "\<not> current_threshold < of_int g_cost + heuristic node goal \<Longrightarrow>
   node \<noteq> goal \<Longrightarrow>
   directions = before @ d # after \<Longrightarrow>
   dfs_loop heuristic goal grid node g_cost current_threshold before Infinity visited
     = Inr (Exceed min_exceed, visited1) \<Longrightarrow>
   passable grid (neighbor_of node d) \<Longrightarrow>
   neighbor_of node d \<notin> visited1 \<Longrightarrow>
   subcall heuristic goal grid current_threshold (node, g_cost, visited)
     (neighbor_of node d, g_cost + 1, insert (neighbor_of node d) visited1)"


text \<open>The f-costs that exceeded the threshold in the run of one call: the f-costs of the
  pruned calls among the call itself and the calls it makes, directly or not.\<close>

definition exceeding_costs ::
  "(coord \<Rightarrow> coord \<Rightarrow> real) \<Rightarrow> coord \<Rightarrow> grid \<Rightarrow> real \<Rightarrow> coord \<times> int \<times> coord set \<Rightarrow> real set" where
  "exceeding_costs heuristic goal grid current_threshold c =
     {of_int g_cost + heuristic node goal | node g_cost visited.
        (subcall heuristic goal grid current_threshold)\<^sup>*\<^sup>* c (node, g_cost, visited) \<and>
        current_threshold < of_int g_cost + heuristic node goal}"

text \<open>A returned number is the least element of a set of costs; infinity stands for the
  empty set.\<close>

fun least_of :: "number \<Rightarrow> real set \<Rightarrow> bool" where
  "least_of Infinity S = (S = {})"
| "least_of (Fin x) S = (x \<in> S \<and> (\<forall>y \<in> S. x \<le> y))"

section \<open>The reference A* search\<close>

text \<open>
  \<open>AStar.search\<close> of the comparison example.  The open set is a \<open>heapq\<close> of tuples
  \<open>(f, g, node)\<close>: \<open>heappush\<close> adds an item and \<open>heappop\<close> removes and returns the least item
  in Python's tuple order, which is the lexicographic order.  The heap is kept as the list of
  its items; items that compare equal are equal, so the item popped is determined.
\<close>

type_synonym heap_item = "real \<times> int \<times> coord"

definition heappush :: "heap_item list \<Rightarrow> heap_item \<Rightarrow> heap_item list" where
  "heappush heap item = heap @ [item]"

definition heappop :: "heap_item list \<Rightarrow> error + (heap_item \<times> heap_item list)" where
  "heappop heap =
     (if heap = [] then Inl IndexError
      else Inr (Min (set heap), remove1 (Min (set heap)) heap))"

text \<open>The local variables of \<open>search\<close>, and the counter \<open>self.nodes_expanded\<close>.\<close>

record astar_state =
  open_set :: "heap_item list"
  came_from :: "coord \<rightharpoonup> coord"
  g_score :: "coord \<rightharpoonup> int"
  f_score :: "coord \<rightharpoonup> real"
  visited :: "coord set"
  nodes_expanded :: int

text \<open>The \<open>for\<close> loop over the neighbours of \<open>current\<close>; \<open>g_score[current]\<close> raises
  \<open>KeyError\<close> when the key is absent.\<close>

fun astar_neighbors ::
    "(coord \<Rightarrow> coord \<Rightarrow> real) \<Rightarrow> coord \<Rightarrow> grid \<Rightarrow> coord \<Rightarrow> (int \<times> int) list \<Rightarrow> astar_state
      \<Rightarrow> error + astar_state" where
  "astar_neighbors heuristic goal grid current [] st = Inr st"
| "astar_neighbors heuristic goal grid current (d # rest) st =
     (if \<not> in_bounds grid (neighbor_of current d)
        then astar_neighbors heuristic goal grid current rest st
      else (case cell grid (neighbor_of current d) of
        Inl e \<Rightarrow> Inl e
      | Inr v \<Rightarrow>
          (if v = 1 then astar_neighbors heuristic goal grid current rest st
           else (case g_score st current of
              None \<Rightarrow> Inl KeyError
            | Some g_current \<Rightarrow>
                (if (case g_score st (neighbor_of current d) of
                       None \<Rightarrow> True
                     | Some g_neighbor \<Rightarrow> g_current + 1 < g_neighbor)
                 then astar_neighbors heuristic goal grid current rest
                   ((st\<lparr>came_from := (came_from st)(neighbor_of current d \<mapsto> current),
                        g_score := (g_score st)(neighbor_of current d \<mapsto> g_current + 1),
                        f_score := (f_score st)(neighbor_of current d \<mapsto>
                           of_int (g_current + 1) + heuristic (neighbor_of current d) goal)\<rparr>)
                     \<lparr>open_set :=
                        (if neighbor_of current d \<notin> visited st
                         then heappush (open_set st)
                                (of_int (g_current + 1) + heuristic (neighbor_of current d) goal,
                                 g_current + 1, neighbor_of current d)
                         else open_set st)\<rparr>)
                 else astar_neighbors heuristic goal grid current rest st)))))"

text \<open>The \<open>while open_set\<close> loop.  The result is the returned boolean (or the exception
  raised) together with the final value of \<open>self.nodes_expanded\<close>.\<close>

partial_function (option) astar_loop ::
    "(coord \<Rightarrow> coord \<Rightarrow> real) \<Rightarrow> coord \<Rightarrow> grid \<Rightarrow> astar_state \<Rightarrow> ((error + bool) \<times> int) option"
where
  "astar_loop heuristic goal grid st =
     (if open_set st = [] then Some (Inr False, nodes_expanded st)
      else (case heappop (open_set st) of
        Inl e \<Rightarrow> Some (Inl e, nodes_expanded st)
      | Inr ((current_f, current_g, current), heap) \<Rightarrow>
          (if current = goal then Some (Inr True, nodes_expanded st + 1)
           else (case astar_neighbors heuristic goal grid current directions
                        (st\<lparr>open_set := heap, nodes_expanded := nodes_expanded st + 1,
                            visited := insert current (visited st)\<rparr>) of
              Inl e \<Rightarrow> Some (Inl e, nodes_expanded st + 1)
            | Inr st' \<Rightarrow> astar_loop heuristic goal grid st'))))"

text \<open>\<open>search\<close> on an object with the given \<open>heuristic\<close> and \<open>nodes_expanded\<close>.\<close>

definition AStar_search ::
    "(coord \<Rightarrow> coord \<Rightarrow> real) \<Rightarrow> int \<Rightarrow> coord \<Rightarrow> coord \<Rightarrow> grid \<Rightarrow> ((error + bool) \<times> int) option" where
  "AStar_search heuristic count start goal grid =
     astar_loop heuristic goal grid
       \<lparr>open_set = heappush [] (0 + heuristic start goal, 0, start),
        came_from = Map.empty,
        g_score = [start \<mapsto> 0],
        f_score = [start \<mapsto> heuristic start goal],
        visited = {},
        nodes_expanded = count\<rparr>"

text \<open>The test and the update of one neighbour in the A* loop, for the proofs below.\<close>

definition improves :: "astar_state \<Rightarrow> coord \<Rightarrow> int \<Rightarrow> bool" where
  "improves st nb gc = (case g_score st nb of None \<Rightarrow> True | Some gn \<Rightarrow> gc + 1 < gn)"

definition relax :: "(coord \<Rightarrow> coord \<Rightarrow> real) \<Rightarrow> coord \<Rightarrow> coord \<Rightarrow> coord \<Rightarrow> int \<Rightarrow> astar_state \<Rightarrow> astar_state" where
  "relax h goal current nb gc st =
     (if improves st nb gc
      then (st\<lparr>came_from := (came_from st)(nb \<mapsto> current),
               g_score := (g_score st)(nb \<mapsto> gc + 1),
               f_score := (f_score st)(nb \<mapsto> of_int (gc + 1) + h nb goal)\<rparr>)
             \<lparr>open_set := (if nb \<notin> visited st
                           then heappush (open_set st) (of_int (gc + 1) + h nb goal, gc + 1, nb)
                           else open_set st)\<rparr>
      else st)"







section \<open>Case analysis and induction for the search\<close>

lemma dfs_loop_Nil: "dfs_loop h goal grid node g thr [] m V = Inr (Exceed m, V)"
  by (simp add: dfs_loop.simps)

lemma dfs_loop_Cons_cases [consumes 1, case_names skip index_error error found continue key_error]:
  assumes "dfs_loop h goal grid node g thr (d # rest) m V = res"
  obtains
    "\<not> (passable grid (neighbor_of node d) \<and> neighbor_of node d \<notin> V)"
      "\<not> (in_bounds grid (neighbor_of node d) \<and> (\<exists>e. cell grid (neighbor_of node d) = Inl e))"
      "dfs_loop h goal grid node g thr rest m V = res"
  | e where "in_bounds grid (neighbor_of node d)" "cell grid (neighbor_of node d) = Inl e"
      "res = Inl e"
  | e where "passable grid (neighbor_of node d)" "neighbor_of node d \<notin> V"
      "dfs_search h goal grid (neighbor_of node d) (g + 1) thr (insert (neighbor_of node d) V) = Inl e"
      "res = Inl e"
  | V1 where "passable grid (neighbor_of node d)" "neighbor_of node d \<notin> V"
      "dfs_search h goal grid (neighbor_of node d) (g + 1) thr (insert (neighbor_of node d) V)
         = Inr (FOUND, V1)"
      "res = Inr (FOUND, V1)"
  | r V1 where "passable grid (neighbor_of node d)" "neighbor_of node d \<notin> V"
      "dfs_search h goal grid (neighbor_of node d) (g + 1) thr (insert (neighbor_of node d) V)
         = Inr (Exceed r, V1)"
      "neighbor_of node d \<in> V1"
      "dfs_loop h goal grid node g thr rest (number_min m r) (V1 - {neighbor_of node d}) = res"
  | r V1 where "passable grid (neighbor_of node d)" "neighbor_of node d \<notin> V"
      "dfs_search h goal grid (neighbor_of node d) (g + 1) thr (insert (neighbor_of node d) V)
         = Inr (Exceed r, V1)"
      "neighbor_of node d \<notin> V1"
      "res = Inl KeyError"
proof (cases "in_bounds grid (neighbor_of node d)")
  case False
  with assms that(1) show ?thesis by (simp add: dfs_loop.simps passable_def)
next
  case inb: True
  show ?thesis
  proof (cases "cell grid (neighbor_of node d)")
    case (Inl e)
    with assms inb that(2) show ?thesis by (simp add: dfs_loop.simps)
  next
    case (Inr v)
    show ?thesis
    proof (cases "v = 1 \<or> neighbor_of node d \<in> V")
      case True
      with assms inb Inr that(1) show ?thesis by (auto simp add: dfs_loop.simps passable_def)
    next
      case False
      then have p: "passable grid (neighbor_of node d)" and nv: "neighbor_of node d \<notin> V"
        using inb Inr by (simp_all add: passable_def)
      show ?thesis
      proof (cases "dfs_search h goal grid (neighbor_of node d) (g + 1) thr (insert (neighbor_of node d) V)")
        case (Inl e)
        with assms inb Inr False that(3) p nv show ?thesis by (simp add: dfs_loop.simps)
      next
        case res: (Inr rv)
        obtain r V1 where rv: "rv = (r, V1)" by (cases rv)
        show ?thesis
        proof (cases r)
          case FOUND
          with assms inb Inr False that(4) p nv res rv show ?thesis by (simp add: dfs_loop.simps)
        next
          case (Exceed x)
          show ?thesis
          proof (cases "neighbor_of node d \<in> V1")
            case True
            with assms inb Inr False that(5) p nv res rv Exceed show ?thesis by (simp add: dfs_loop.simps)
          next
            case nin: False
            with assms inb Inr False that(6) p nv res rv Exceed show ?thesis by (simp add: dfs_loop.simps)
          qed
        qed
      qed
    qed
  qed
qed

lemma dfs_search_cases [consumes 1, case_names pruned goal expand]:
  assumes "dfs_search h goal grid node g thr V = res"
  obtains
    "thr < of_int g + h node goal" "res = Inr (Exceed (Fin (of_int g + h node goal)), V)"
  | "\<not> thr < of_int g + h node goal" "node = goal" "res = Inr (FOUND, V)"
  | "\<not> thr < of_int g + h node goal" "node \<noteq> goal"
      "dfs_loop h goal grid node g thr directions Infinity V = res"
  using assms by (simp add: dfs_search.simps [of h goal grid node g thr V] split: if_splits)


lemma dfs_visited:
  "dfs_search h goal grid node g thr V = Inr (r, V') \<Longrightarrow> (r \<noteq> FOUND \<longrightarrow> V' = V) \<and> V \<subseteq> V'"
  "dfs_loop h goal grid node g thr ds m V = Inr (r, V') \<Longrightarrow> (r \<noteq> FOUND \<longrightarrow> V' = V) \<and> V \<subseteq> V'"
proof (induction h goal grid node g thr V and h goal grid node g thr ds m V
       arbitrary: r V' and r V' rule: dfs_search_dfs_loop.induct)
  case (1 h goal grid node g thr V)
  from "1.prems" show ?case
  proof (cases rule: dfs_search_cases)
    case expand
    with "1.IH" show ?thesis by blast
  qed auto
next
  case (2 h goal grid node g thr m V)
  then show ?case by (simp add: dfs_loop_Nil)
next
  case (3 h goal grid node g thr d rest m V)
  let ?nb = "neighbor_of node d"
  from "3.prems" show ?case
  proof (cases rule: dfs_loop_Cons_cases)
    case skip
    then have "in_bounds grid ?nb \<longrightarrow> (\<exists>v. cell grid ?nb = Inr v \<and> (v = 1 \<or> ?nb \<in> V))"
      by (auto simp: passable_def split: sum.splits)
    with skip(3) "3.IH"(1,2,3) show ?thesis by blast
  next
    case (found V1)
    then obtain v where v: "cell grid ?nb = Inr v" "v \<noteq> 1" and inb: "in_bounds grid ?nb"
      by (auto simp: passable_def split: sum.splits)
    from "3.IH"(4) [OF _ v found(2,3)] inb have "insert ?nb V \<subseteq> V1" by simp
    with found show ?thesis by auto
  next
    case (continue r1 V1)
    then obtain v where v: "cell grid ?nb = Inr v" "v \<noteq> 1" and inb: "in_bounds grid ?nb"
      by (auto simp: passable_def split: sum.splits)
    from "3.IH"(4) [OF _ v continue(2,3)] inb have V1: "V1 = insert ?nb V" by simp
    with continue(2) have rest_eq: "V1 - {?nb} = V" by auto
    have "(r \<noteq> FOUND \<longrightarrow> V' = V1 - {?nb}) \<and> V1 - {?nb} \<subseteq> V'"
      using inb by (intro "3.IH"(5) [OF _ v continue(2,3) refl refl continue(4,5)]) simp
    with rest_eq show ?thesis by simp
  qed simp_all
qed

lemma dfs_search_restores:
  "dfs_search h goal grid node g thr V = Inr (Exceed r, V') \<Longrightarrow> V' = V"
  using dfs_visited(1) by blast

lemma dfs_loop_restores:
  "dfs_loop h goal grid node g thr ds m V = Inr (Exceed r, V') \<Longrightarrow> V' = V"
  using dfs_visited(2) by blast


lemma dfs_loop_cases [consumes 1, case_names skip index_error error found continue]:
  assumes "dfs_loop h goal grid node g thr (d # rest) m V = res"
  obtains
    "\<not> (passable grid (neighbor_of node d) \<and> neighbor_of node d \<notin> V)"
      "\<not> (in_bounds grid (neighbor_of node d) \<and> (\<exists>e. cell grid (neighbor_of node d) = Inl e))"
      "dfs_loop h goal grid node g thr rest m V = res"
  | "in_bounds grid (neighbor_of node d)" "cell grid (neighbor_of node d) = Inl IndexError"
      "res = Inl IndexError"
  | e where "passable grid (neighbor_of node d)" "neighbor_of node d \<notin> V"
      "dfs_search h goal grid (neighbor_of node d) (g + 1) thr (insert (neighbor_of node d) V) = Inl e"
      "res = Inl e"
  | V1 where "passable grid (neighbor_of node d)" "neighbor_of node d \<notin> V"
      "dfs_search h goal grid (neighbor_of node d) (g + 1) thr (insert (neighbor_of node d) V)
         = Inr (FOUND, V1)"
      "res = Inr (FOUND, V1)"
  | r where "passable grid (neighbor_of node d)" "neighbor_of node d \<notin> V"
      "dfs_search h goal grid (neighbor_of node d) (g + 1) thr (insert (neighbor_of node d) V)
         = Inr (Exceed r, insert (neighbor_of node d) V)"
      "dfs_loop h goal grid node g thr rest (number_min m r) V = res"
  using assms
proof (cases rule: dfs_loop_Cons_cases)
  case (index_error e)
  moreover have "e = IndexError"
    using index_error(2)
    by (auto simp: cell_def py_index_def split: sum.splits if_splits)
  ultimately show ?thesis using that(2) by simp
next
  case (continue r V1)
  from dfs_search_restores [OF continue(3)] have "V1 = insert (neighbor_of node d) V" .
  with continue that(5) show ?thesis by simp
next
  case (key_error r V1)
  from dfs_search_restores [OF key_error(3)] key_error(4) show ?thesis by simp
qed (use that in blast)+

lemma dfs_induct [case_names search loop_Nil loop_Cons]:
  assumes search: "\<And>h goal grid node g thr V.
      (\<not> thr < of_int g + h node goal \<Longrightarrow> node \<noteq> goal \<Longrightarrow>
         Q h goal grid node g thr directions Infinity V) \<Longrightarrow>
      P h goal grid node g thr V"
    and loop_Nil: "\<And>h goal grid node g thr m V. Q h goal grid node g thr [] m V"
    and loop_Cons: "\<And>h goal grid node g thr d rest m V.
      (\<not> (passable grid (neighbor_of node d) \<and> neighbor_of node d \<notin> V) \<Longrightarrow>
       \<not> (in_bounds grid (neighbor_of node d) \<and> (\<exists>e. cell grid (neighbor_of node d) = Inl e)) \<Longrightarrow>
         Q h goal grid node g thr rest m V) \<Longrightarrow>
      (passable grid (neighbor_of node d) \<Longrightarrow> neighbor_of node d \<notin> V \<Longrightarrow>
         P h goal grid (neighbor_of node d) (g + 1) thr (insert (neighbor_of node d) V)) \<Longrightarrow>
      (\<And>r. passable grid (neighbor_of node d) \<Longrightarrow> neighbor_of node d \<notin> V \<Longrightarrow>
         dfs_search h goal grid (neighbor_of node d) (g + 1) thr (insert (neighbor_of node d) V)
           = Inr (Exceed r, insert (neighbor_of node d) V) \<Longrightarrow>
         Q h goal grid node g thr rest (number_min m r) V) \<Longrightarrow>
      Q h goal grid node g thr (d # rest) m V"
  shows "P h goal grid node g thr V" and "Q h goal grid node g thr ds m V"
proof (induction h goal grid node g thr V and h goal grid node g thr ds m V
       rule: dfs_search_dfs_loop.induct)
  case (1 h goal grid node g thr V)
  then show ?case by (intro search) simp
next
  case (2 h goal grid node g thr m V)
  show ?case by (rule loop_Nil)
next
  case (3 h goal grid node g thr d rest m V)
  let ?nb = "neighbor_of node d"
  show ?case
  proof (rule loop_Cons)
    assume "\<not> (passable grid ?nb \<and> ?nb \<notin> V)"
      and "\<not> (in_bounds grid ?nb \<and> (\<exists>e. cell grid ?nb = Inl e))"
    then have "in_bounds grid ?nb \<longrightarrow> (\<exists>v. cell grid ?nb = Inr v \<and> (v = 1 \<or> ?nb \<in> V))"
      by (auto simp: passable_def split: sum.splits)
    with "3.IH"(1,2,3) show "Q h goal grid node g thr rest m V" by blast
  next
    assume "passable grid ?nb" and nv: "?nb \<notin> V"
    then obtain v where v: "cell grid ?nb = Inr v" "v \<noteq> 1" and inb: "in_bounds grid ?nb"
      by (auto simp: passable_def split: sum.splits)
    from inb show "P h goal grid ?nb (g + 1) thr (insert ?nb V)"
      by (intro "3.IH"(4) [OF _ v nv]) simp
  next
    fix r
    assume "passable grid ?nb" and nv: "?nb \<notin> V"
      and call: "dfs_search h goal grid ?nb (g + 1) thr (insert ?nb V) = Inr (Exceed r, insert ?nb V)"
    then obtain v where v: "cell grid ?nb = Inr v" "v \<noteq> 1" and inb: "in_bounds grid ?nb"
      by (auto simp: passable_def split: sum.splits)
    have "Q h goal grid node g thr rest (number_min m r) (insert ?nb V - {?nb})"
      using inb by (intro "3.IH"(5) [OF _ v nv call refl refl]) simp_all
    with nv show "Q h goal grid node g thr rest (number_min m r) V" by simp
  qed
qed

section \<open>Steps and the Manhattan distance\<close>

lemma adjacent_iff:
  "adjacent a b \<longleftrightarrow>
     b = (fst a, snd a + 1) \<or> b = (fst a + 1, snd a) \<or> b = (fst a, snd a - 1) \<or> b = (fst a - 1, snd a)"
  by (auto simp: adjacent_def directions_def neighbor_of_def)


lemma manhattan_step: "adjacent a b \<Longrightarrow> manhattan a c \<le> 1 + manhattan b c"
  by (auto simp: adjacent_iff manhattan_def)

lemma manhattan_path: "is_path p \<Longrightarrow> manhattan (hd p) (last p) \<le> int (length p) - 1"
proof (induction p rule: is_path.induct)
  case 1
  then show ?case by simp
next
  case (2 a)
  then show ?case by (simp add: manhattan_def)
next
  case (3 a b rest)
  then have "manhattan b (last (b # rest)) \<le> int (length (b # rest)) - 1" by simp
  moreover have "manhattan a (last (b # rest)) \<le> 1 + manhattan b (last (b # rest))"
    using 3 by (intro manhattan_step) simp
  ultimately show ?case by simp
qed

lemma shortest_cost_path:
  assumes "path_exists grid s g"
  shows "\<exists>p. grid_path grid p \<and> hd p = s \<and> last p = g \<and> length p = Suc (shortest_cost grid s g)"
proof -
  from assms obtain p where p: "grid_path grid p" "hd p = s" "last p = g"
    by (auto simp: path_exists_def)
  then have "p \<noteq> []" by (auto simp: grid_path_def)
  then have "length p = Suc (length p - 1)" by simp
  with p have "\<exists>n. \<exists>p. grid_path grid p \<and> hd p = s \<and> last p = g \<and> length p = Suc n" by blast
  then show ?thesis unfolding shortest_cost_def by (rule LeastI_ex)
qed

section \<open>Returned bounds exceed the threshold\<close>

lemma dfs_exceeds:
  "dfs_search h goal grid node g thr V = Inr (Exceed (Fin r), V') \<Longrightarrow> thr < r"
  "dfs_loop h goal grid node g thr ds m V = Inr (Exceed (Fin r), V') \<Longrightarrow>
     (\<forall>x. m = Fin x \<longrightarrow> thr < x) \<Longrightarrow> thr < r"
proof (induction h goal grid node g thr V and h goal grid node g thr ds m V
       arbitrary: r V' and r V' rule: dfs_induct)
  case (search h goal grid node g thr V)
  from search.prems show ?case
    by (cases rule: dfs_search_cases) (use search.IH in auto)
next
  case (loop_Nil h goal grid node g thr m V)
  then show ?case by (simp add: dfs_loop_Nil)
next
  case (loop_Cons h goal grid node g thr d rest m V)
  from loop_Cons.prems(1) show ?case
  proof (cases rule: dfs_loop_cases)
    case skip
    with loop_Cons.IH(1) loop_Cons.prems(2) show ?thesis by blast
  next
    case (continue r1)
    have "\<forall>x. number_min m r1 = Fin x \<longrightarrow> thr < x"
      using loop_Cons.prems(2) loop_Cons.IH(2) [OF continue(1,2)] continue(3)
      by (cases r1) (auto simp: number_min_def)
    with loop_Cons.IH(3) [OF continue(1,2,3,4)] show ?thesis by blast
  qed simp_all
qed


section \<open>Reachability and simple paths\<close>

lemma cell_rectangular:
  assumes "rectangular grid" and "in_bounds grid p"
  shows "\<exists>v. cell grid p = Inr v"
proof -
  from assms(2) obtain row0 rest where g: "grid = row0 # rest" 
    and r: "0 \<le> fst p" "fst p < int (length grid)" and c: "0 \<le> snd p" "snd p < int (length row0)"
    by (auto simp: in_bounds_def split: list.splits)
  from r have "grid ! nat (fst p) \<in> set grid" by (intro nth_mem) linarith
  moreover from assms(1) g have "\<forall>row \<in> set grid. length row = length row0"
    by (simp add: rectangular_def list_all_iff)
  ultimately have "length (grid ! nat (fst p)) = length row0" by blast
  with r c show ?thesis by (simp add: cell_def py_index_def)
qed




lemma walk_reach: "walk grid a q \<Longrightarrow> reach grid a (last (a # q))"
proof (induction q arbitrary: a)
  case Nil
  show ?case by (simp add: reach_refl)
next
  case (Cons n q)
  then have "reach grid n (last (n # q))" by simp
  with Cons.prems show ?case by (auto intro: reach_step)
qed



lemma spath_reach: "spath grid V a b \<Longrightarrow> reach grid a b"
  by (induction rule: spath.induct) (auto intro: reach.intros)









section \<open>Soundness and exhaustion of the bounded search\<close>





section \<open>Termination of the threshold loop\<close>

lemma finite_f_candidates: "finite (f_candidates h goal grid node g V)"
  unfolding f_candidates_def using finite_cells by (intro finite_imageI finite_cartesian_product) auto

lemma f_candidates_self: "of_int g + h node goal \<in> f_candidates h goal grid node g V"
proof -
  have "(0, node) \<in> {0 .. card (cells grid - V)} \<times> insert node (cells grid - V)" by simp
  then have "(\<lambda>(k, c). of_int (g + int k) + h c goal) (0, node) \<in> f_candidates h goal grid node g V"
    unfolding f_candidates_def by (rule imageI)
  then show ?thesis by simp
qed

lemma f_candidates_child:
  assumes "in_bounds grid nb" and "nb \<notin> V"
    and "r \<in> f_candidates h goal grid nb (g + 1) (insert nb V)"
  shows "r \<in> f_candidates h goal grid node g V"
proof -
  from assms(3) obtain kc where kc: "r = (\<lambda>(k, c). of_int (g + 1 + int k) + h c goal) kc"
    "kc \<in> {0 .. card (cells grid - insert nb V)} \<times> insert nb (cells grid - insert nb V)"
    unfolding f_candidates_def by blast
  obtain k c where "kc = (k, c)" by (cases kc)
  with kc have r: "r = of_int (g + 1 + int k) + h c goal"
    and k: "k \<le> card (cells grid - insert nb V)" and c: "c \<in> insert nb (cells grid - insert nb V)"
    by simp_all
  from assms(1,2) have nb: "nb \<in> cells grid - V" by (simp add: cells_def)
  have fin: "finite (cells grid - V)" using finite_cells by simp
  have "cells grid - insert nb V = (cells grid - V) - {nb}" by auto
  then have "card (cells grid - insert nb V) = card (cells grid - V) - 1"
    using nb fin by simp
  moreover have "0 < card (cells grid - V)" using nb fin by (auto simp: card_gt_0_iff)
  ultimately have "Suc k \<le> card (cells grid - V)" using k by linarith
  moreover from c nb have "c \<in> insert node (cells grid - V)" by auto
  ultimately have "(Suc k, c) \<in> {0 .. card (cells grid - V)} \<times> insert node (cells grid - V)" by simp
  then have "(\<lambda>(k, c). of_int (g + int k) + h c goal) (Suc k, c) \<in> f_candidates h goal grid node g V"
    unfolding f_candidates_def by (rule imageI)
  with r show ?thesis by (simp add: add.commute add.left_commute)
qed

lemma dfs_result_candidate:
  "dfs_search h goal grid node g thr V = Inr (Exceed (Fin r), V') \<Longrightarrow>
     r \<in> f_candidates h goal grid node g V"
  "dfs_loop h goal grid node g thr ds m V = Inr (Exceed (Fin r), V') \<Longrightarrow>
     m = Fin r \<or> r \<in> f_candidates h goal grid node g V"
proof (induction h goal grid node g thr V and h goal grid node g thr ds m V
       arbitrary: r V' and r V' rule: dfs_induct)
  case (search h goal grid node g thr V)
  from search.prems show ?case
  proof (cases rule: dfs_search_cases)
    case pruned
    then show ?thesis by (simp add: f_candidates_self)
  next
    case expand
    with search.IH show ?thesis by blast
  qed simp_all
next
  case (loop_Nil h goal grid node g thr m V)
  then show ?case by (simp add: dfs_loop_Nil)
next
  case (loop_Cons h goal grid node g thr d rest m V)
  from loop_Cons.prems(1) show ?case
  proof (cases rule: dfs_loop_cases)
    case skip
    with loop_Cons.IH(1) show ?thesis by blast
  next
    case (continue r1)
    from loop_Cons.IH(3) [OF continue] consider "number_min m r1 = Fin r"
      | "r \<in> f_candidates h goal grid node g V" by blast
    then show ?thesis
    proof cases
      case 1
      then consider "m = Fin r" | "r1 = Fin r" by (auto simp: number_min_def split: if_splits)
      then show ?thesis
      proof cases
        case 2
        with loop_Cons.IH(2) [OF continue(1,2)] continue(3)
        have "r \<in> f_candidates h goal grid (neighbor_of node d) (g + 1) (insert (neighbor_of node d) V)"
          by simp
        moreover from continue(1) have "in_bounds grid (neighbor_of node d)" by (simp add: passable_def)
        ultimately show ?thesis using continue(2) by (auto intro: f_candidates_child)
      qed simp
    qed simp
  qed simp_all
qed




section \<open>Independence of the start cell's occupancy\<close>

lemma dfs_loop_Cons:
  "dfs_loop h goal grid node g thr (d # rest) m V =
     (if \<not> in_bounds grid (neighbor_of node d) then dfs_loop h goal grid node g thr rest m V
      else (case cell grid (neighbor_of node d) of
        Inl e \<Rightarrow> Inl e
      | Inr v \<Rightarrow>
          (if v = 1 \<or> neighbor_of node d \<in> V then dfs_loop h goal grid node g thr rest m V
           else (case dfs_search h goal grid (neighbor_of node d) (g + 1) thr
                        (insert (neighbor_of node d) V) of
              Inl e \<Rightarrow> Inl e
            | Inr (FOUND, V1) \<Rightarrow> Inr (FOUND, V1)
            | Inr (Exceed r, V1) \<Rightarrow> dfs_loop h goal grid node g thr rest (number_min m r) V))))"
proof -
  obtain res where res: "dfs_loop h goal grid node g thr (d # rest) m V = res" by simp
  then show ?thesis
  proof (cases rule: dfs_loop_cases)
    case skip
    with res show ?thesis by (auto simp: passable_def split: sum.splits)
  next
    case index_error
    with res show ?thesis by simp
  next
    case (error e)
    with res show ?thesis by (auto simp: passable_def split: sum.splits)
  next
    case (found V1)
    with res show ?thesis by (auto simp: passable_def split: sum.splits)
  next
    case (continue r)
    with res show ?thesis by (auto simp: passable_def split: sum.splits)
  qed
qed

lemma same_except_in_bounds:
  assumes "same_except s G G'" shows "in_bounds G p = in_bounds G' p"
proof (cases G)
  case Nil
  with assms show ?thesis by (simp add: same_except_def in_bounds_def)
next
  case (Cons row0 rest)
  with assms obtain row0' rest' where G': "G' = row0' # rest'"
    by (cases G') (auto simp: same_except_def)
  from assms Cons G' have "length row0 = length row0'" "length G = length G'"
    by (auto simp: same_except_def)
  with Cons G' show ?thesis by (simp add: in_bounds_def)
qed

lemma same_except_cell:
  assumes "same_except s G G'" and "in_bounds G p"
  shows "p \<noteq> s \<Longrightarrow> cell G p = cell G' p"
    and "(cell G p = Inl IndexError \<and> cell G' p = Inl IndexError) \<or>
         (\<exists>v v'. cell G p = Inr v \<and> cell G' p = Inr v')"
proof -
  from assms(2) have r: "0 \<le> fst p" "fst p < int (length G)" and c: "0 \<le> snd p"
    by (auto simp: in_bounds_def split: list.splits)
  then have i: "nat (fst p) < length G" by linarith
  with assms(1) have len: "length G = length G'"
    "length (G ! nat (fst p)) = length (G' ! nat (fst p))"
    and eq: "\<forall>j < length (G ! nat (fst p)). (int (nat (fst p)), int j) \<noteq> s \<longrightarrow>
       G ! nat (fst p) ! j = G' ! nat (fst p) ! j"
    by (auto simp: same_except_def)
  from r c len show "(cell G p = Inl IndexError \<and> cell G' p = Inl IndexError) \<or>
         (\<exists>v v'. cell G p = Inr v \<and> cell G' p = Inr v')"
    by (simp add: cell_def py_index_def)
  assume "p \<noteq> s"
  show "cell G p = cell G' p"
  proof (cases "snd p < int (length (G ! nat (fst p)))")
    case True
    then have j: "nat (snd p) < length (G ! nat (fst p))" using c by linarith
    have "(int (nat (fst p)), int (nat (snd p))) = p" using r c by (cases p) simp
    with eq j \<open>p \<noteq> s\<close> have "G ! nat (fst p) ! nat (snd p) = G' ! nat (fst p) ! nat (snd p)"
      by metis
    with r c len True show ?thesis by (simp add: cell_def py_index_def)
  next
    case False
    with r c len show ?thesis by (simp add: cell_def py_index_def)
  qed
qed

lemma dfs_same_except:
  "same_except s grid G' \<Longrightarrow> s \<in> V \<Longrightarrow>
     dfs_search h goal grid node g thr V = dfs_search h goal G' node g thr V"
  "same_except s grid G' \<Longrightarrow> s \<in> V \<Longrightarrow>
     dfs_loop h goal grid node g thr ds m V = dfs_loop h goal G' node g thr ds m V"
proof (induction h goal grid node g thr V and h goal grid node g thr ds m V rule: dfs_induct)
  case (search h goal grid node g thr V)
  then show ?case
    by (simp add: dfs_search.simps [of h goal grid node g thr V]
                  dfs_search.simps [of h goal G' node g thr V])
next
  case (loop_Nil h goal grid node g thr m V)
  show ?case by (simp add: dfs_loop_Nil)
next
  case (loop_Cons h goal grid node g thr d rest m V)
  let ?nb = "neighbor_of node d"
  note se = loop_Cons.prems(1) and sV = loop_Cons.prems(2)
  note inb = same_except_in_bounds [OF se, of ?nb]
  show ?case
  proof (cases "in_bounds grid ?nb")
    case False
    with loop_Cons.IH(1) se sV inb show ?thesis
      by (simp add: dfs_loop_Cons [of _ _ _ _ _ _ d] passable_def)
  next
    case True
    note cells = same_except_cell [OF se True]
    show ?thesis
    proof (cases "?nb \<in> V")
      case inV: True
      from cells(2) show ?thesis
      proof
        assume "cell grid ?nb = Inl IndexError \<and> cell G' ?nb = Inl IndexError"
        with True inb show ?thesis by (simp add: dfs_loop_Cons [of _ _ _ _ _ _ d])
      next
        assume "\<exists>v v'. cell grid ?nb = Inr v \<and> cell G' ?nb = Inr v'"
        then obtain v v' where v: "cell grid ?nb = Inr v" "cell G' ?nb = Inr v'" by blast
        with loop_Cons.IH(1) se sV inV have
          "dfs_loop h goal grid node g thr rest m V = dfs_loop h goal G' node g thr rest m V"
          by simp
        with True inb v inV show ?thesis by (simp add: dfs_loop_Cons [of _ _ _ _ _ _ d])
      qed
    next
      case notV: False
      with sV have "?nb \<noteq> s" by auto
      from cells(1) [OF this] have ceq: "cell grid ?nb = cell G' ?nb" .
      show ?thesis
      proof (cases "cell grid ?nb")
        case (Inl e)
        with ceq have "cell G' ?nb = Inl e" by simp
        with True inb Inl show ?thesis by (simp add: dfs_loop_Cons [of _ _ _ _ _ _ d])
      next
        case (Inr v)
        with ceq have c': "cell G' ?nb = Inr v" by simp
        show ?thesis
        proof (cases "v = 1")
          case blocked: True
          with loop_Cons.IH(1) se sV Inr True have
            "dfs_loop h goal grid node g thr rest m V = dfs_loop h goal G' node g thr rest m V"
            by (simp add: passable_def)
          with True inb c' Inr blocked show ?thesis by (simp add: dfs_loop_Cons [of _ _ _ _ _ _ d])
        next
          case free: False
          with True Inr have p: "passable grid ?nb" by (simp add: passable_def)
          from loop_Cons.IH(2) [OF p notV se] sV have
            call: "dfs_search h goal grid ?nb (g + 1) thr (insert ?nb V)
                 = dfs_search h goal G' ?nb (g + 1) thr (insert ?nb V)" by simp
          show ?thesis
          proof (cases "dfs_search h goal grid ?nb (g + 1) thr (insert ?nb V)")
            case (Inl e)
            with call have "dfs_search h goal G' ?nb (g + 1) thr (insert ?nb V) = Inl e" by simp
            with True inb c' Inr free notV Inl show ?thesis
              by (simp add: dfs_loop_Cons [of _ _ _ _ _ _ d])
          next
            case res: (Inr rv)
            obtain r V1 where rv: "rv = (r, V1)" by (cases rv)
            from call res rv have call':
              "dfs_search h goal G' ?nb (g + 1) thr (insert ?nb V) = Inr (r, V1)" by simp
            from res rv have call0:
              "dfs_search h goal grid ?nb (g + 1) thr (insert ?nb V) = Inr (r, V1)" by simp
            show ?thesis
            proof (cases r)
              case FOUND
              with True inb c' Inr free notV call' call0 show ?thesis
                by (simp add: dfs_loop_Cons [of _ _ _ _ _ _ d])
            next
              case (Exceed x)
              with res rv have "V1 = insert ?nb V" by (auto dest: dfs_search_restores)
              with loop_Cons.IH(3) [OF p notV _ se sV, of x] res rv Exceed have
                "dfs_loop h goal grid node g thr rest (number_min m x) V
                 = dfs_loop h goal G' node g thr rest (number_min m x) V" by simp
              with True inb c' Inr free notV call' call0 Exceed show ?thesis
                by (simp add: dfs_loop_Cons [of _ _ _ _ _ _ d])
            qed
          qed
        qed
      qed
    qed
  qed
qed

lemma ida_loop_induct [case_names iteration]:
  assumes "\<And>thr. (\<And>r V'. dfs_search h goal grid start 0 thr {start} = Inr (Exceed (Fin r), V')
              \<Longrightarrow> P r) \<Longrightarrow> P thr"
  shows "P thr"
proof (induction "card {v \<in> f_candidates h goal grid start 0 {start}. thr < v}"
       arbitrary: thr rule: less_induct)
  case less
  let ?F = "f_candidates h goal grid start 0 {start}"
  show ?case
  proof (rule assms)
    fix r V'
    assume call: "dfs_search h goal grid start 0 thr {start} = Inr (Exceed (Fin r), V')"
    then have gt: "thr < r" by (rule dfs_exceeds(1))
    from call have mem: "r \<in> ?F" by (rule dfs_result_candidate(1))
    have "{v \<in> ?F. r < v} \<subset> {v \<in> ?F. thr < v}" using gt mem by auto
    then have "card {v \<in> ?F. r < v} < card {v \<in> ?F. thr < v}"
      by (intro psubset_card_mono) (simp_all add: finite_f_candidates)
    then show "P r" by (rule less)
  qed
qed

lemma ida_loop_same_except:
  assumes "same_except start grid G'"
  shows "ida_loop h start goal grid thr = ida_loop h start goal G' thr"
proof (induction thr rule: ida_loop_induct [where h = h and goal = goal and grid = grid and start = start])
  case (iteration thr)
  have eq: "dfs_search h goal grid start 0 thr {start} = dfs_search h goal G' start 0 thr {start}"
    using assms by (intro dfs_same_except(1)) simp_all
  show ?case
  proof (cases "dfs_search h goal grid start 0 thr {start}")
    case (Inl e)
    with eq have "dfs_search h goal G' start 0 thr {start} = Inl e" by simp
    with Inl show ?thesis
      by (simp add: ida_loop.simps [of h start goal grid thr] ida_loop.simps [of h start goal G' thr])
  next
    case (Inr rv)
    obtain res V' where rv: "rv = (res, V')" by (cases rv)
    with Inr eq have run: "dfs_search h goal grid start 0 thr {start} = Inr (res, V')"
      and run': "dfs_search h goal G' start 0 thr {start} = Inr (res, V')" by simp_all
    show ?thesis
    proof (cases res)
      case FOUND
      with run run' show ?thesis
        by (simp add: ida_loop.simps [of h start goal grid thr] ida_loop.simps [of h start goal G' thr])
    next
      case (Exceed n)
      show ?thesis
      proof (cases n)
        case Infinity
        with run run' Exceed show ?thesis
          by (simp add: ida_loop.simps [of h start goal grid thr] ida_loop.simps [of h start goal G' thr])
      next
        case (Fin r)
        with run Exceed iteration have "ida_loop h start goal grid r = ida_loop h start goal G' r"
          by simp
        with run run' Exceed Fin show ?thesis
          by (simp add: ida_loop.simps [of h start goal grid thr] ida_loop.simps [of h start goal G' thr])
      qed
    qed
  qed
qed


section \<open>Dead ends, iterations and the recursion path\<close>

lemma dfs_loop_dead_end:
  assumes "rectangular grid"
    and "\<forall>d \<in> set ds. \<not> in_bounds grid (neighbor_of node d) \<or> cell grid (neighbor_of node d) = Inr 1
           \<or> neighbor_of node d \<in> V"
  shows "dfs_loop h goal grid node g thr ds m V = Inr (Exceed m, V)"
  using assms(2)
proof (induction ds)
  case Nil
  show ?case by (rule dfs_loop_Nil)
next
  case (Cons d rest)
  then have rest: "dfs_loop h goal grid node g thr rest m V = Inr (Exceed m, V)" by simp
  show ?case
  proof (cases "in_bounds grid (neighbor_of node d)")
    case False
    with rest show ?thesis by (simp add: dfs_loop_Cons)
  next
    case True
    from cell_rectangular [OF assms(1) True] obtain v where v: "cell grid (neighbor_of node d) = Inr v"
      by blast
    with Cons.prems True have "v = 1 \<or> neighbor_of node d \<in> V" by auto
    with rest True v show ?thesis by (simp add: dfs_loop_Cons)
  qed
qed

lemma iteration_ida_loop:
  "iteration h start goal grid t \<Longrightarrow> ida_loop h start goal grid t = ida_star start goal grid h"
proof (induction rule: iteration.induct)
  case first
  show ?case by (simp add: ida_star_def)
next
  case (again t r V')
  then show ?case by (simp add: ida_loop.simps [of h start goal grid t])
qed

lemma ida_loop_False:
  "ida_loop h start goal grid t = Some (Inr False) \<Longrightarrow> iteration h start goal grid t \<Longrightarrow>
     \<exists>t' V'. iteration h start goal grid t' \<and>
       dfs_search h goal grid start 0 t' {start} = Inr (Exceed Infinity, V')"
proof (induction t rule: ida_loop_induct [where h = h and goal = goal and grid = grid and start = start])
  case (iteration t)
  show ?case
  proof (cases "dfs_search h goal grid start 0 t {start}")
    case (Inl e)
    with iteration.prems(1) show ?thesis by (simp add: ida_loop.simps [of h start goal grid t])
  next
    case (Inr rv)
    obtain res V' where rv: "rv = (res, V')" by (cases rv)
    show ?thesis
    proof (cases res)
      case FOUND
      with Inr rv iteration.prems(1) show ?thesis
        by (simp add: ida_loop.simps [of h start goal grid t])
    next
      case (Exceed n)
      show ?thesis
      proof (cases n)
        case Infinity
        with Inr rv Exceed iteration.prems(2) show ?thesis by blast
      next
        case (Fin r)
        with Inr rv Exceed have call: "dfs_search h goal grid start 0 t {start} = Inr (Exceed (Fin r), V')"
          by simp
        with iteration.prems(1) have "ida_loop h start goal grid r = Some (Inr False)"
          by (simp add: ida_loop.simps [of h start goal grid t])
        moreover from iteration.prems(2) call have "iteration h start goal grid r"
          by (rule again)
        ultimately show ?thesis using iteration.IH [OF call] by blast
      qed
    qed
  qed
qed

text \<open>The loop over \<open>before @ after\<close>, once \<open>before\<close> has been processed without \<open>FOUND\<close> or
  an exception, goes on over \<open>after\<close> from the state reached: this is the state the calls
  of \<open>subcall\<close> start from.\<close>

lemma dfs_loop_append:
  "dfs_loop h goal grid node g thr before m V = Inr (Exceed m1, V1) \<Longrightarrow>
     dfs_loop h goal grid node g thr (before @ after) m V
       = dfs_loop h goal grid node g thr after m1 V1"
proof (induction before arbitrary: m)
  case Nil
  then show ?case by (simp add: dfs_loop_Nil)
next
  case (Cons d before)
  from Cons.prems show ?case
  proof (cases rule: dfs_loop_cases)
    case skip
    from skip(1,2) have "dfs_loop h goal grid node g thr (d # (before @ after)) m V
        = dfs_loop h goal grid node g thr (before @ after) m V"
      by (auto simp: dfs_loop_Cons passable_def split: sum.splits)
    with Cons.IH [OF skip(3)] show ?thesis by simp
  next
    case (continue r1)
    from continue(1,2,3) have "dfs_loop h goal grid node g thr (d # (before @ after)) m V
        = dfs_loop h goal grid node g thr (before @ after) (number_min m r1) V"
      by (auto simp: dfs_loop_Cons passable_def split: sum.splits)
    with Cons.IH [OF continue(4)] show ?thesis by simp
  qed simp_all
qed




section \<open>The returned bound is the least exceeding f-cost\<close>

lemma least_of_min:
  "least_of m M \<Longrightarrow> least_of r R \<Longrightarrow> least_of (number_min m r) (M \<union> R)"
  by (cases m; cases r) (auto simp: number_min_def)

lemma dfs_loop_prefix:
  "dfs_loop h goal grid node g thr (ds1 @ ds2) m V = Inr (Exceed r, V') \<Longrightarrow>
     \<exists>m1. dfs_loop h goal grid node g thr ds1 m V = Inr (Exceed m1, V)"
proof (induction ds1 arbitrary: m)
  case Nil
  show ?case by (simp add: dfs_loop_Nil)
next
  case (Cons d ds1)
  from Cons.prems have "dfs_loop h goal grid node g thr (d # (ds1 @ ds2)) m V = Inr (Exceed r, V')"
    by simp
  then show ?case
  proof (cases rule: dfs_loop_cases)
    case skip
    from Cons.IH [OF skip(3)] obtain m1 where
      "dfs_loop h goal grid node g thr ds1 m V = Inr (Exceed m1, V)" by blast
    moreover from skip(1,2) have "dfs_loop h goal grid node g thr (d # ds1) m V
        = dfs_loop h goal grid node g thr ds1 m V"
      by (auto simp: dfs_loop_Cons passable_def split: sum.splits)
    ultimately show ?thesis by simp
  next
    case (continue r1)
    from Cons.IH [OF continue(4)] obtain m1 where
      "dfs_loop h goal grid node g thr ds1 (number_min m r1) V = Inr (Exceed m1, V)" by blast
    moreover from continue(1,2,3) have "dfs_loop h goal grid node g thr (d # ds1) m V
        = dfs_loop h goal grid node g thr ds1 (number_min m r1) V"
      by (auto simp: dfs_loop_Cons passable_def split: sum.splits)
    ultimately show ?thesis by simp
  qed simp_all
qed

lemma subcall_iff:
  assumes "\<not> thr < of_int g + h node goal" and "node \<noteq> goal"
    and "dfs_loop h goal grid node g thr directions Infinity V = Inr (Exceed r, V')"
  shows "subcall h goal grid thr (node, g, V) c' \<longleftrightarrow>
     (\<exists>d \<in> set directions. passable grid (neighbor_of node d) \<and> neighbor_of node d \<notin> V \<and>
        c' = (neighbor_of node d, g + 1, insert (neighbor_of node d) V))"
proof
  assume sub: "subcall h goal grid thr (node, g, V) c'"
  obtain nb g' W where c': "c' = (nb, g', W)" by (cases c')
  from sub obtain before d after min_exceed visited1 where
    dirs: "directions = before @ d # after"
    and pre: "dfs_loop h goal grid node g thr before Infinity V = Inr (Exceed min_exceed, visited1)"
    and nb: "nb = neighbor_of node d" "passable grid (neighbor_of node d)"
      "neighbor_of node d \<notin> visited1"
    and rest: "g' = g + 1" "W = insert (neighbor_of node d) visited1"
    unfolding c' by (auto simp: subcall.simps)
  from dfs_loop_restores [OF pre] have "visited1 = V" .
  moreover have "d \<in> set (before @ d # after)" by simp
  then have "d \<in> set directions" by (simp only: dirs)
  ultimately show "\<exists>d \<in> set directions. passable grid (neighbor_of node d) \<and> neighbor_of node d \<notin> V \<and>
        c' = (neighbor_of node d, g + 1, insert (neighbor_of node d) V)"
    using nb rest c' by blast
next
  assume "\<exists>d \<in> set directions. passable grid (neighbor_of node d) \<and> neighbor_of node d \<notin> V \<and>
        c' = (neighbor_of node d, g + 1, insert (neighbor_of node d) V)"
  then obtain d where d: "d \<in> set directions" "passable grid (neighbor_of node d)"
    "neighbor_of node d \<notin> V" and c': "c' = (neighbor_of node d, g + 1, insert (neighbor_of node d) V)"
    by blast
  from d(1) obtain before after where dirs: "directions = before @ d # after"
    by (auto dest: split_list)
  with assms(3) have "dfs_loop h goal grid node g thr (before @ (d # after)) Infinity V = Inr (Exceed r, V')"
    by simp
  from dfs_loop_prefix [OF this] obtain m1 where
    pre: "dfs_loop h goal grid node g thr before Infinity V = Inr (Exceed m1, V)" by blast
  show "subcall h goal grid thr (node, g, V) c'"
    unfolding c' using assms(1,2) dirs pre d(2,3) by (rule subcall.intros)
qed

lemma exceeding_costsI:
  "(subcall h goal grid thr)\<^sup>*\<^sup>* c (n, g, V) \<Longrightarrow> thr < of_int g + h n goal \<Longrightarrow>
     of_int g + h n goal \<in> exceeding_costs h goal grid thr c"
  unfolding exceeding_costs_def by blast

lemma exceeding_costsE:
  assumes "x \<in> exceeding_costs h goal grid thr c"
  obtains n g V where "x = of_int g + h n goal" "thr < of_int g + h n goal"
    "(subcall h goal grid thr)\<^sup>*\<^sup>* c (n, g, V)"
  using assms unfolding exceeding_costs_def by blast

lemma exceeding_costs_pruned:
  assumes "thr < of_int g + h node goal"
  shows "exceeding_costs h goal grid thr (node, g, V) = {of_int g + h node goal}"
proof (intro set_eqI iffI)
  fix x assume "x \<in> exceeding_costs h goal grid thr (node, g, V)"
  then obtain n' g' V' where x: "x = of_int g' + h n' goal"
    and star: "(subcall h goal grid thr)\<^sup>*\<^sup>* (node, g, V) (n', g', V')"
    by (rule exceeding_costsE)
  from star have "(n', g', V') = (node, g, V)"
  proof (cases rule: converse_rtranclpE)
    case base
    then show ?thesis by simp
  next
    case (step y)
    with assms show ?thesis by (auto simp: subcall.simps)
  qed
  with x show "x \<in> {of_int g + h node goal}" by simp
next
  fix x assume "x \<in> {of_int g + h node goal}"
  then have "x = of_int g + h node goal" by simp
  moreover have "(subcall h goal grid thr)\<^sup>*\<^sup>* (node, g, V) (node, g, V)" by simp
  from exceeding_costsI [OF this assms]
  have "of_int g + h node goal \<in> exceeding_costs h goal grid thr (node, g, V)" .
  ultimately show "x \<in> exceeding_costs h goal grid thr (node, g, V)" by simp
qed

lemma exceeding_costs_expand:
  assumes "\<not> thr < of_int g + h node goal"
  shows "exceeding_costs h goal grid thr (node, g, V) =
     (\<Union>c' \<in> {c'. subcall h goal grid thr (node, g, V) c'}. exceeding_costs h goal grid thr c')"
proof (intro set_eqI iffI)
  fix x assume "x \<in> exceeding_costs h goal grid thr (node, g, V)"
  then obtain n' g' V' where x: "x = of_int g' + h n' goal" "thr < of_int g' + h n' goal"
    and star: "(subcall h goal grid thr)\<^sup>*\<^sup>* (node, g, V) (n', g', V')"
    by (rule exceeding_costsE)
  from star show "x \<in> (\<Union>c' \<in> {c'. subcall h goal grid thr (node, g, V) c'}. exceeding_costs h goal grid thr c')"
  proof (cases rule: converse_rtranclpE)
    case base
    with x assms show ?thesis by simp
  next
    case (step c')
    from exceeding_costsI [OF step(2) x(2)] x(1) have "x \<in> exceeding_costs h goal grid thr c'" by simp
    with step(1) show ?thesis by blast
  qed
next
  fix x assume "x \<in> (\<Union>c' \<in> {c'. subcall h goal grid thr (node, g, V) c'}. exceeding_costs h goal grid thr c')"
  then obtain c' where c': "subcall h goal grid thr (node, g, V) c'"
    and xc: "x \<in> exceeding_costs h goal grid thr c'" by blast
  from xc obtain n' g' V' where x: "x = of_int g' + h n' goal" "thr < of_int g' + h n' goal"
    and star: "(subcall h goal grid thr)\<^sup>*\<^sup>* c' (n', g', V')"
    by (rule exceeding_costsE)
  from c' star have "(subcall h goal grid thr)\<^sup>*\<^sup>* (node, g, V) (n', g', V')"
    by (rule converse_rtranclp_into_rtranclp)
  from exceeding_costsI [OF this x(2)] x(1)
  show "x \<in> exceeding_costs h goal grid thr (node, g, V)" by simp
qed

lemma dfs_least_exceeding:
  "dfs_search h goal grid node g thr V = Inr (Exceed r, V') \<Longrightarrow>
     least_of r (exceeding_costs h goal grid thr (node, g, V))"
  "dfs_loop h goal grid node g thr ds m V = Inr (Exceed r, V') \<Longrightarrow> least_of m M \<Longrightarrow>
     least_of r (M \<union> (\<Union>d \<in> {d \<in> set ds. passable grid (neighbor_of node d) \<and> neighbor_of node d \<notin> V}.
        exceeding_costs h goal grid thr (neighbor_of node d, g + 1, insert (neighbor_of node d) V)))"
proof (induction h goal grid node g thr V and h goal grid node g thr ds m V
       arbitrary: r V' and r V' M rule: dfs_induct)
  case (search h goal grid node g thr V)
  from search.prems show ?case
  proof (cases rule: dfs_search_cases)
    case pruned
    then show ?thesis by (simp add: exceeding_costs_pruned)
  next
    case expand
    have "least_of Infinity {}" by simp
    from search.IH [OF expand(1,2,3) this] have
      "least_of r (\<Union>d \<in> {d \<in> set directions. passable grid (neighbor_of node d) \<and> neighbor_of node d \<notin> V}.
        exceeding_costs h goal grid thr (neighbor_of node d, g + 1, insert (neighbor_of node d) V))"
      by simp
    moreover from expand(1) have "exceeding_costs h goal grid thr (node, g, V) =
      (\<Union>c' \<in> {c'. subcall h goal grid thr (node, g, V) c'}. exceeding_costs h goal grid thr c')"
      by (rule exceeding_costs_expand)
    then have "exceeding_costs h goal grid thr (node, g, V) =
      (\<Union>d \<in> {d \<in> set directions. passable grid (neighbor_of node d) \<and> neighbor_of node d \<notin> V}.
        exceeding_costs h goal grid thr (neighbor_of node d, g + 1, insert (neighbor_of node d) V))"
      unfolding subcall_iff [OF expand] by auto
    ultimately show ?thesis by simp
  qed simp_all
next
  case (loop_Nil h goal grid node g thr m V)
  then show ?case by (simp add: dfs_loop_Nil)
next
  case (loop_Cons h goal grid node g thr d rest m V)
  let ?E = "\<lambda>d. exceeding_costs h goal grid thr (neighbor_of node d, g + 1, insert (neighbor_of node d) V)"
  let ?ok = "\<lambda>d. passable grid (neighbor_of node d) \<and> neighbor_of node d \<notin> V"
  from loop_Cons.prems(1) show ?case
  proof (cases rule: dfs_loop_cases)
    case skip
    from loop_Cons.IH(1) [OF skip loop_Cons.prems(2)]
    have "least_of r (M \<union> (\<Union>d \<in> {d \<in> set rest. ?ok d}. ?E d))" .
    moreover have "{d' \<in> set (d # rest). ?ok d'} = {d' \<in> set rest. ?ok d'}" using skip(1) by auto
    ultimately show ?thesis by simp
  next
    case (continue r1)
    from loop_Cons.IH(2) [OF continue(1,2,3)] have "least_of r1 (?E d)" .
    with loop_Cons.prems(2) have "least_of (number_min m r1) (M \<union> ?E d)" by (rule least_of_min)
    from loop_Cons.IH(3) [OF continue this]
    have "least_of r ((M \<union> ?E d) \<union> (\<Union>d \<in> {d \<in> set rest. ?ok d}. ?E d))" .
    moreover have "{d' \<in> set (d # rest). ?ok d'} = insert d {d' \<in> set rest. ?ok d'}"
      using continue(1,2) by auto
    ultimately show ?thesis by (simp add: Un_assoc)
  qed simp_all
qed



section \<open>Correctness and termination of the A* search\<close>



lemma relax_visited [simp]: "visited (relax h goal current nb gc st) = visited st"
  by (simp add: relax_def)
























lemma ida_loop_returns:
  assumes "\<forall>r V'. dfs_search h goal grid start 0 t {start} \<noteq> Inr (Exceed (Fin r), V')"
  shows "\<exists>res. ida_loop h start goal grid t = Some res"
proof (cases "dfs_search h goal grid start 0 t {start}")
  case (Inl e)
  then show ?thesis by (simp add: ida_loop.simps [of h start goal grid t])
next
  case (Inr rv)
  obtain res V' where rv: "rv = (res, V')" by (cases rv)
  show ?thesis
  proof (cases res)
    case FOUND
    with Inr rv show ?thesis by (simp add: ida_loop.simps [of h start goal grid t])
  next
    case (Exceed n)
    with Inr rv assms show ?thesis
      by (cases n) (simp_all add: ida_loop.simps [of h start goal grid t])
  qed
qed

text \<open>Unfolding rules for evaluating the definitions on concrete grids.\<close>

lemmas grid_simps = in_bounds_def cell_def py_index_def passable_def adjacent_iff grid_path_def

lemmas search_simps = ida_star_def ida_loop.simps dfs_search.simps dfs_loop.simps directions_def
  neighbor_of_def in_bounds_def cell_def py_index_def number_min_def manhattan_h_def manhattan_def

section \<open>The claims\<close>

text \<open>
  C8: the default heuristic \<open>manhattan(a, b)\<close> equals \<open>|a.row - b.row| + |a.col - b.col|\<close>, is
  non-negative and symmetric, and is admissible: it is at most the number of steps of every
  4-directional path from \<open>a\<close> to \<open>b\<close> (in particular of every obstacle-free path of any
  grid), hence at most the true shortest-path cost whenever a path exists.
\<close>

theorem manhattan_admissible:
  "manhattan a b = \<bar>fst a - fst b\<bar> + \<bar>snd a - snd b\<bar> \<and>
   0 \<le> manhattan a b \<and>
   manhattan a b = manhattan b a \<and>
   (\<forall>p. is_path p \<and> hd p = a \<and> last p = b \<longrightarrow> manhattan a b \<le> int (length p) - 1) \<and>
   (\<forall>grid p. grid_path grid p \<and> hd p = a \<and> last p = b \<longrightarrow> manhattan a b \<le> int (length p) - 1) \<and>
   (\<forall>grid. path_exists grid a b \<longrightarrow> manhattan a b \<le> int (shortest_cost grid a b))"
proof (intro conjI allI impI)
  show "manhattan a b = \<bar>fst a - fst b\<bar> + \<bar>snd a - snd b\<bar>" by (simp add: manhattan_def)
  show "0 \<le> manhattan a b" by (simp add: manhattan_def)
  show "manhattan a b = manhattan b a" by (simp add: manhattan_def abs_minus_commute)
next
  fix p assume "is_path p \<and> hd p = a \<and> last p = b"
  then show "manhattan a b \<le> int (length p) - 1" using manhattan_path [of p] by auto
next
  fix grid p assume "grid_path grid p \<and> hd p = a \<and> last p = b"
  then show "manhattan a b \<le> int (length p) - 1"
    using manhattan_path [of p] by (auto simp: grid_path_def)
next
  fix grid assume "path_exists grid a b"
  from shortest_cost_path [OF this] obtain p where
    "grid_path grid p" "hd p = a" "last p = b" "length p = Suc (shortest_cost grid a b)" by blast
  then show "manhattan a b \<le> int (shortest_cost grid a b)"
    using manhattan_path [of p] by (auto simp: grid_path_def)
qed


theorem manhattan_admissible_witness:
  "grid_path [[0, 0], [1, 0]] [(0, 0), (0, 1), (1, 1)] \<and>
   path_exists [[0, 0], [1, 0]] (0, 0) (1, 1) \<and>
   manhattan (0, 0) (1, 1) = 2 \<and>
   manhattan (0, 0) (1, 1) \<le> int (length [(0, 0), (0, 1), (1 :: int, 1 :: int)]) - 1 \<and>
   manhattan (0, 0) (1, 1) \<le> int (shortest_cost [[0, 0], [1, 0]] (0, 0) (1, 1))"
proof -
  have p: "grid_path [[0, 0], [1, 0]] [(0, 0), (0, 1), (1, 1)]"
    by (simp add: grid_simps)
  then have c: "path_exists [[0, 0], [1, 0]] (0, 0) (1, 1)"
    unfolding path_exists_def by (intro exI [of _ "[(0, 0), (0, 1), (1, 1)]"]) simp
  from manhattan_admissible [of "(0, 0)" "(1, 1)"] p c show ?thesis
    by (auto simp: manhattan_def)
qed


text \<open>
  C9: for every coordinate \<open>s\<close>, every grid and every heuristic, \<open>ida_star(s, s, grid, h)\<close>
  returns \<open>True\<close>: the first top-level call answers \<open>FOUND\<close> at the goal check, before the
  neighbour loop.  The grid is arbitrary here (empty, ragged, \<open>s\<close> blocked or out of bounds):
  no cell of it is read.
\<close>

theorem start_is_goal:
  "ida_star s s grid h = Some (Inr True) \<and>
   dfs_search h s grid s 0 (h s s) {s} = Inr (FOUND, {s})"
  by (simp add: ida_star_def ida_loop.simps dfs_search.simps)


text \<open>
  C3: every finite value returned by \<open>dfs_search\<close> run with threshold \<open>t\<close> is strictly
  greater than \<open>t\<close>: it is the least of the f-costs that exceeded \<open>t\<close> in that run.  So
  each assignment \<open>threshold = result\<close> of the outer loop strictly increases the threshold,
  and an iteration without such a value is the last one: the loop returns.
\<close>

theorem threshold_strictly_increases:
  "(dfs_search h goal grid node g t V = Inr (Exceed (Fin r), V') \<longrightarrow>
      t < r \<and> r \<in> exceeding_costs h goal grid t (node, g, V) \<and>
      (\<forall>y \<in> exceeding_costs h goal grid t (node, g, V). r \<le> y)) \<and>
   (iteration h start goal grid t \<and>
    dfs_search h goal grid start 0 t {start} = Inr (Exceed (Fin r), V') \<longrightarrow>
      iteration h start goal grid r \<and> t < r \<and>
      ida_loop h start goal grid t = ida_loop h start goal grid r) \<and>
   ((\<forall>r V'. dfs_search h goal grid start 0 t {start} \<noteq> Inr (Exceed (Fin r), V')) \<longrightarrow>
      (\<exists>res. ida_loop h start goal grid t = Some res))"
proof (intro conjI impI)
  assume "\<forall>r V'. dfs_search h goal grid start 0 t {start} \<noteq> Inr (Exceed (Fin r), V')"
  then show "\<exists>res. ida_loop h start goal grid t = Some res" by (rule ida_loop_returns)
next
  assume a: "dfs_search h goal grid node g t V = Inr (Exceed (Fin r), V')"
  then show "t < r" by (rule dfs_exceeds(1))
  from dfs_least_exceeding(1) [OF a]
  show "r \<in> exceeding_costs h goal grid t (node, g, V)"
    and "\<forall>y \<in> exceeding_costs h goal grid t (node, g, V). r \<le> y" by simp_all
next
  assume a: "iteration h start goal grid t \<and>
    dfs_search h goal grid start 0 t {start} = Inr (Exceed (Fin r), V')"
  then show "iteration h start goal grid r" by (auto intro: again)
  from a show "t < r" by (auto dest: dfs_exceeds(1))
  from a show "ida_loop h start goal grid t = ida_loop h start goal grid r"
    by (simp add: ida_loop.simps [of h start goal grid t])
qed

theorem threshold_strictly_increases_witness:
  "iteration manhattan_h (0, 0) (0, 2) [[0, 1, 0], [0, 0, 0]] 2 \<and>
   dfs_search manhattan_h (0, 2) [[0, 1, 0], [0, 0, 0]] (0, 0) 0 2 {(0, 0)}
     = Inr (Exceed (Fin 4), {(0, 0)}) \<and>
   4 \<in> exceeding_costs manhattan_h (0, 2) [[0, 1, 0], [0, 0, 0]] 2 ((0, 0), 0, {(0, 0)}) \<and>
   iteration manhattan_h (0, 0) (0, 2) [[0, 1, 0], [0, 0, 0]] 4 \<and>
   (2 :: real) < 4"
proof -
  let ?G = "[[0, 1, 0], [0, 0, 0 :: int]]"
  have "manhattan_h (0, 0) (0, 2) = 2" by (simp add: manhattan_h_def manhattan_def)
  with first [of manhattan_h "(0, 0)" "(0, 2)" ?G]
  have it: "iteration manhattan_h (0, 0) (0, 2) ?G 2" by simp
  have run: "dfs_search manhattan_h (0, 2) ?G (0, 0) 0 2 {(0, 0)} = Inr (Exceed (Fin 4), {(0, 0)})"
    by (simp add: search_simps)
  with it threshold_strictly_increases
    [of manhattan_h "(0, 2)" ?G "(0, 0)" 0 2 "{(0, 0)}" 4 "{(0, 0)}" "(0, 0)"]
  show ?thesis by simp
qed









text \<open>
  C10: the result of \<open>ida_star\<close> does not depend on the occupancy of the start cell: on two
  grids that differ at most in the value of cell \<open>s\<close> it returns the same result, for every
  start \<open>s\<close>, goal and heuristic.  In particular a blocked start cell can yield \<open>True\<close>.
\<close>

theorem start_occupancy_irrelevant:
  "(same_except s grid grid' \<longrightarrow> ida_star s g grid h = ida_star s g grid' h) \<and>
   ida_star (0, 0) (0, 1) [[1, 0]] manhattan_h = Some (Inr True)"
proof
  show "same_except s grid grid' \<longrightarrow> ida_star s g grid h = ida_star s g grid' h"
    unfolding ida_star_def by (auto intro: ida_loop_same_except)
  show "ida_star (0, 0) (0, 1) [[1, 0]] manhattan_h = Some (Inr True)"
    by (simp add: search_simps)
qed

theorem start_occupancy_irrelevant_witness:
  "same_except (0, 0) [[1, 0]] [[0, 0]] \<and>
   ida_star (0, 0) (0, 1) [[1, 0]] manhattan_h = ida_star (0, 0) (0, 1) [[0, 0]] manhattan_h"
proof -
  have "same_except (0, 0) [[1, 0]] [[0, 0]]"
    by (simp add: same_except_def less_Suc_eq)
  with start_occupancy_irrelevant [of "(0, 0)" "[[1, 0]]" "[[0, 0]]" "(0, 1)" manhattan_h]
  show ?thesis by simp
qed


text \<open>
  C4, as stated, fails at the goal (and at a pruned node): in the 1x1 grid the goal has zero
  eligible neighbours and the call returns \<open>FOUND\<close>, not infinity.
\<close>

theorem goal_dead_end_counterexample:
  "dead_end [[0]] (0, 0) {(0, 0)} \<and>
   dfs_search manhattan_h (0, 0) [[0]] (0, 0) 0 0 {(0, 0)} = Inr (FOUND, {(0, 0)})"
  by (simp add: dead_end_def search_simps)

text \<open>
  C4, amended: on a rectangular grid, a call of the bounded search at a node that passes the
  threshold test, is not the goal and has zero eligible neighbours (every 4-neighbour out of
  bounds, blocked, or already in the visited set) returns infinity.  The outer loop returns
  \<open>False\<close> exactly when the top-level call of one of its iterations returns infinity, never
  when it returns a finite bound: then the loop runs the next iteration with that bound as
  its threshold.
\<close>

theorem dead_end_returns_infinity:
  "(rectangular grid \<and> dead_end grid node V \<and> \<not> t < of_int g + h node goal \<and> node \<noteq> goal \<longrightarrow>
      dfs_search h goal grid node g t V = Inr (Exceed Infinity, V)) \<and>
   (ida_star s goal grid h = Some (Inr False) \<longleftrightarrow>
      (\<exists>t V'. iteration h s goal grid t \<and>
         dfs_search h goal grid s 0 t {s} = Inr (Exceed Infinity, V'))) \<and>
   (iteration h s goal grid t \<and> dfs_search h goal grid s 0 t {s} = Inr (Exceed (Fin r), V') \<longrightarrow>
      iteration h s goal grid r \<and> t < r \<and> ida_star s goal grid h = ida_loop h s goal grid r)"
proof (intro conjI impI iffI)
  assume a: "rectangular grid \<and> dead_end grid node V \<and> \<not> t < of_int g + h node goal \<and> node \<noteq> goal"
  then have "dfs_loop h goal grid node g t directions Infinity V = Inr (Exceed Infinity, V)"
    by (intro dfs_loop_dead_end) (simp_all add: dead_end_def list_all_iff)
  with a show "dfs_search h goal grid node g t V = Inr (Exceed Infinity, V)"
    by (simp add: dfs_search.simps [of h goal grid node g t V])
next
  assume "ida_star s goal grid h = Some (Inr False)"
  then have "ida_loop h s goal grid (h s goal) = Some (Inr False)" by (simp add: ida_star_def)
  then show "\<exists>t V'. iteration h s goal grid t \<and>
         dfs_search h goal grid s 0 t {s} = Inr (Exceed Infinity, V')"
    by (rule ida_loop_False) (rule first)
next
  assume "\<exists>t V'. iteration h s goal grid t \<and>
         dfs_search h goal grid s 0 t {s} = Inr (Exceed Infinity, V')"
  then obtain t V' where it: "iteration h s goal grid t"
    and call: "dfs_search h goal grid s 0 t {s} = Inr (Exceed Infinity, V')" by blast
  from call have "ida_loop h s goal grid t = Some (Inr False)"
    by (simp add: ida_loop.simps [of h s goal grid t])
  with iteration_ida_loop [OF it] show "ida_star s goal grid h = Some (Inr False)" by simp
next
  assume a: "iteration h s goal grid t \<and> dfs_search h goal grid s 0 t {s} = Inr (Exceed (Fin r), V')"
  then show "iteration h s goal grid r" by (auto intro: again)
  from a show "t < r" by (auto dest: dfs_exceeds(1))
  from a have "ida_loop h s goal grid t = ida_loop h s goal grid r"
    by (simp add: ida_loop.simps [of h s goal grid t])
  with a iteration_ida_loop [of h s goal grid t]
  show "ida_star s goal grid h = ida_loop h s goal grid r" by simp
qed

theorem dead_end_returns_infinity_witness:
  "rectangular [[0, 1], [1, 0]] \<and> dead_end [[0, 1], [1, 0]] (0, 0) {(0, 0)} \<and>
   \<not> (2 :: real) < of_int 0 + manhattan_h (0, 0) (1, 1) \<and> (0, 0) \<noteq> (1 :: int, 1 :: int) \<and>
   dfs_search manhattan_h (1, 1) [[0, 1], [1, 0]] (0, 0) 0 2 {(0, 0)}
     = Inr (Exceed Infinity, {(0, 0)}) \<and>
   iteration manhattan_h (0, 0) (1, 1) [[0, 1], [1, 0]] 2 \<and>
   ida_star (0, 0) (1, 1) [[0, 1], [1, 0]] manhattan_h = Some (Inr False) \<and>
   iteration manhattan_h (0, 0) (0, 2) [[0, 1, 0], [0, 0, 0]] 2 \<and>
   dfs_search manhattan_h (0, 2) [[0, 1, 0], [0, 0, 0]] (0, 0) 0 2 {(0, 0)}
     = Inr (Exceed (Fin 4), {(0, 0)}) \<and>
   iteration manhattan_h (0, 0) (0, 2) [[0, 1, 0], [0, 0, 0]] 4"
proof -
  let ?G = "[[0, 1], [1, 0 :: int]]" and ?H = "[[0, 1, 0], [0, 0, 0 :: int]]"
  have r: "rectangular ?G" by (simp add: rectangular_def)
  have d: "dead_end ?G (0, 0) {(0, 0)}" by (simp add: dead_end_def search_simps)
  have f: "\<not> (2 :: real) < of_int 0 + manhattan_h (0, 0) (1, 1)"
    by (simp add: manhattan_h_def manhattan_def)
  have "manhattan_h (0, 0) (1, 1) = 2" by (simp add: manhattan_h_def manhattan_def)
  with first [of manhattan_h "(0, 0)" "(1, 1)" ?G]
  have it: "iteration manhattan_h (0, 0) (1, 1) ?G 2" by simp
  have "manhattan_h (0, 0) (0, 2) = 2" by (simp add: manhattan_h_def manhattan_def)
  with first [of manhattan_h "(0, 0)" "(0, 2)" ?H]
  have it': "iteration manhattan_h (0, 0) (0, 2) ?H 2" by simp
  have run: "dfs_search manhattan_h (0, 2) ?H (0, 0) 0 2 {(0, 0)} = Inr (Exceed (Fin 4), {(0, 0)})"
    by (simp add: search_simps)
  note inst = dead_end_returns_infinity [of ?G "(0, 0)" "{(0, 0)}" 2 0 manhattan_h "(1, 1)" "(0, 0)"]
  note inst' = dead_end_returns_infinity [of ?H "(0, 0)" "{(0, 0)}" 2 0 manhattan_h "(0, 2)" "(0, 0)" 4 "{(0, 0)}"]
  from inst r d f have call: "dfs_search manhattan_h (1, 1) ?G (0, 0) 0 2 {(0, 0)}
     = Inr (Exceed Infinity, {(0, 0)})" by simp
  with inst it have res: "ida_star (0, 0) (1, 1) ?G manhattan_h = Some (Inr False)" by blast
  from inst' it' run have "iteration manhattan_h (0, 0) (0, 2) ?H 4" by blast
  with r d f call it res it' run show ?thesis by simp
qed




text \<open>
  The two searches read the grid in different orders, so the rectangular shape matters for
  their agreement: on a ragged list of rows one can return while the other raises.
\<close>

lemma ragged_grid_divergence:
  "\<not> rectangular [[0, 0, 0], [0]] \<and>
   ida_star (0, 0) (0, 2) [[0, 0, 0], [0]] manhattan_h = Some (Inr True) \<and>
   AStar_search manhattan_h 0 (0, 0) (0, 2) [[0, 0, 0], [0]] = Some (Inl IndexError, 2)"
  by (simp add: rectangular_def AStar_search_def astar_loop.simps heappush_def heappop_def search_simps)



end
